theory Spec2Isabelle
  imports Main "HOL-Library.Word"
begin

section \<open>The keypad firmware: shared state\<close>

text \<open>
  The firmware is an Arduino sketch: a 4 x 3 key matrix is scanned, every change of a
  key is queued as two bytes, and an I2C master reads the queue through a register
  protocol. The sketch keeps everything in global variables; the model gathers them in
  one record and every function of the sketch takes the record and returns it updated.
  Each function of the sketch is one atomic step of the model: an interrupt handler
  that runs in the middle of another function is not modelled.
\<close>

type_synonym u8 = "8 word"
type_synonym u32 = "32 word"

definition I2C_BUFFER_SIZE :: nat where
  "I2C_BUFFER_SIZE = 16"

definition ROWS :: "nat list" where
  "ROWS = [2, 4, 5, 10]"

definition COLS :: "nat list" where
  "COLS = [3, 11, 12]"

definition ROW_COUNT :: nat where
  "ROW_COUNT = 4"

definition COL_COUNT :: nat where
  "COL_COUNT = 3"

definition NUM_KEYS :: nat where
  "NUM_KEYS = ROW_COUNT * COL_COUNT"

definition DEBOUNCE_MS :: u32 where
  "DEBOUNCE_MS = 20"

definition SCAN_INTERVAL_MS :: u32 where
  "SCAN_INTERVAL_MS = 10"

text \<open>
  The on-chip subsystems that the power reduction register can switch off. The set
  \<open>prr\<close> of the state holds those that are switched off.
\<close>

datatype peripheral = Timer0 | Timer1 | Timer2 | SPI | USART0 | ADC | TWI

text \<open>
  The globals of the sketch. \<open>i2cBuffer\<close> is the array of \<open>I2C_BUFFER_SIZE\<close> bytes,
  \<open>lastKeyState\<close> and \<open>currentKeyState\<close> are arrays of \<open>NUM_KEYS\<close> bytes; an array is a
  list of that length. \<open>pinLevel\<close> is the level last written to each digital pin
  (\<open>True\<close> is HIGH).
\<close>

record firmware =
  systemWakeUp :: bool
  i2cBuffer :: "u8 list"
  i2cWriteIndex :: u8
  newKeyEvent :: bool
  lastScanTime :: u32
  lastKeyState :: "u8 list"
  currentKeyState :: "u8 list"
  currentRegister :: u8
  pinLevel :: "nat \<Rightarrow> bool"
  prr :: "peripheral set"

text \<open>
  The state after the static initialisers and \<open>setup\<close>: all globals zero, every pin
  written by \<open>configureKeypadPins\<close> HIGH, nothing switched off.
\<close>

definition rows_idle :: "(nat \<Rightarrow> bool) \<Rightarrow> nat \<Rightarrow> bool" where
  "rows_idle lv = lv(2 := True, 4 := True, 5 := True, 10 := True)"

definition initial :: firmware where
  "initial = \<lparr> systemWakeUp = False,
     i2cBuffer = [0, 0, 0, 0, 0, 0, 0, 0, 0, 0, 0, 0, 0, 0, 0, 0],
     i2cWriteIndex = 0, newKeyEvent = False, lastScanTime = 0,
     lastKeyState = [0, 0, 0, 0, 0, 0, 0, 0, 0, 0, 0, 0],
     currentKeyState = [0, 0, 0, 0, 0, 0, 0, 0, 0, 0, 0, 0],
     currentRegister = 0, pinLevel = rows_idle (\<lambda>p. False), prr = {} \<rparr>"

section \<open>The event queue and the bus handlers\<close>

text \<open>
  \<open>queueKeyEvent\<close>: the guard \<open>i2cWriteIndex + 2 <= I2C_BUFFER_SIZE\<close> is computed in
  \<open>int\<close> (the index is promoted), so it does not wrap; the two post-increments are
  8-bit additions.
\<close>

definition queueKeyEvent :: "u8 \<Rightarrow> u8 \<Rightarrow> firmware \<Rightarrow> firmware" where
  "queueKeyEvent keyIndex pressed s =
     (if unat (i2cWriteIndex s) + 2 \<le> I2C_BUFFER_SIZE then
        let s1 = s\<lparr>i2cBuffer := (i2cBuffer s)[unat (i2cWriteIndex s) := keyIndex],
                   i2cWriteIndex := i2cWriteIndex s + 1\<rparr>;
            s2 = s1\<lparr>i2cBuffer := (i2cBuffer s1)[unat (i2cWriteIndex s1) :=
                                        (if pressed \<noteq> 0 then 0x80 else 0x00)],
                    i2cWriteIndex := i2cWriteIndex s1 + 1\<rparr>
        in s2\<lparr>newKeyEvent := True\<rparr>
      else s)"

text \<open>
  \<open>onI2CReceive byteCount rx\<close>: \<open>rx\<close> is the receive buffer of the Wire library when
  the handler is called. \<open>Wire.read()\<close> takes its first byte, and returns \<open>-1\<close> (the
  byte \<open>0xFF\<close> once stored in a \<open>uint8_t\<close>) when the buffer is empty;
  \<open>Wire.available()\<close> is the number of bytes left. The \<open>while\<close> loop is
  \<open>receive_data\<close>.
\<close>

definition Wire_read :: "u8 list \<Rightarrow> u8 \<times> u8 list" where
  "Wire_read rx = (case rx of [] \<Rightarrow> (0xFF, []) | b # rest \<Rightarrow> (b, rest))"

fun receive_data :: "int \<Rightarrow> u8 list \<Rightarrow> firmware \<Rightarrow> firmware" where
  "receive_data byteCount [] s = s"
| "receive_data byteCount (data # rx) s =
     (if byteCount > 0 then
        receive_data (byteCount - 1) rx
          (if unat (i2cWriteIndex s) < I2C_BUFFER_SIZE then
             s\<lparr>i2cBuffer := (i2cBuffer s)[unat (i2cWriteIndex s) := data],
               i2cWriteIndex := i2cWriteIndex s + 1\<rparr>
           else s)
      else s)"

definition onI2CReceive :: "int \<Rightarrow> u8 list \<Rightarrow> firmware \<Rightarrow> firmware" where
  "onI2CReceive byteCount rx s =
     (if byteCount > 0 then
        let (reg, rest) = Wire_read rx
        in receive_data (byteCount - 1) rest (s\<lparr>currentRegister := reg\<rparr>)
      else s)"

text \<open>
  \<open>onI2CRequest\<close> returns the bytes handed to \<open>Wire.write\<close>, which are the answer to
  the master's read, and the new state. \<open>Wire.write(i2cBuffer, i2cWriteIndex)\<close> sends
  the first \<open>i2cWriteIndex\<close> bytes of the array; the index never exceeds the length of
  the array (see the invariant below), so the read stays inside it.
\<close>

definition onI2CRequest :: "firmware \<Rightarrow> u8 list \<times> firmware" where
  "onI2CRequest s =
     (if currentRegister s = 0x90 then ([0x00], s)
      else if currentRegister s = 0x84 then
        (take (unat (i2cWriteIndex s)) (i2cBuffer s), s\<lparr>i2cWriteIndex := 0\<rparr>)
      else ([0x00], s))"

text \<open>
  The contents of the queue are the first \<open>i2cWriteIndex\<close> bytes of the buffer. One
  event on the wire is the pair of bytes \<open>encode\<close> (the key index, then \<open>0x80\<close> for a
  press and \<open>0x00\<close> for a release); \<open>enqueue_all\<close> is a run of calls of
  \<open>queueKeyEvent\<close>, one for each event of a list, in order.
\<close>

definition queue_contents :: "firmware \<Rightarrow> u8 list" where
  "queue_contents s = take (unat (i2cWriteIndex s)) (i2cBuffer s)"

definition encode :: "u8 \<times> u8 \<Rightarrow> u8 list" where
  "encode e = [fst e, if snd e \<noteq> 0 then 0x80 else 0x00]"

fun enqueue_all :: "(u8 \<times> u8) list \<Rightarrow> firmware \<Rightarrow> firmware" where
  "enqueue_all [] s = s"
| "enqueue_all (e # evs) s = enqueue_all evs (queueKeyEvent (fst e) (snd e) s)"

section \<open>The matrix scanner\<close>

definition digitalWrite :: "nat \<Rightarrow> bool \<Rightarrow> firmware \<Rightarrow> firmware" where
  "digitalWrite pin level s = s\<lparr>pinLevel := (pinLevel s)(pin := level)\<rparr>"

text \<open>
  \<open>write_rows level i\<close> is the loop
  \<^verbatim>\<open>for (; i < ROW_COUNT; i++) digitalWrite(ROWS[i], level);\<close>
  which the sketch runs from \<open>i = 0\<close> in \<open>scanKeypad\<close> and in \<open>enterSleep\<close>. The loop
  counters of the sketch are 8-bit and stay below 4, so they are natural numbers here.
\<close>

function write_rows :: "bool \<Rightarrow> nat \<Rightarrow> firmware \<Rightarrow> firmware" where
  "write_rows level i s =
     (if i < ROW_COUNT then write_rows level (i + 1) (digitalWrite (ROWS ! i) level s)
      else s)"
  by pat_completeness auto
termination
  by (relation "measure (\<lambda>(level, i, s). ROW_COUNT - i)") auto

declare write_rows.simps [simp del]

text \<open>
  The scanner reads the matrix through \<open>digitalRead\<close>. The model takes the readings as
  an input: \<open>sense row col\<close> holds when \<open>digitalRead(COLS[col])\<close> is LOW while row
  \<open>row\<close> is driven low, that is when the key at \<open>(row, col)\<close> is sensed as pressed.
  \<open>scan_key\<close> is the body of the inner loop, \<open>scan_cols\<close> the inner loop from column
  \<open>col\<close>, \<open>scan_rows\<close> the outer loop from row \<open>row\<close>. The settle delay has no
  counterpart in the model.
\<close>

definition scan_key :: "(nat \<Rightarrow> nat \<Rightarrow> bool) \<Rightarrow> nat \<Rightarrow> nat \<Rightarrow> firmware \<Rightarrow> firmware" where
  "scan_key sense row col s =
     (let keyIndex = (of_nat (row * COL_COUNT + col) :: u8);
          isPressed = (if sense row col then 1 else 0 :: u8);
          s1 = s\<lparr>currentKeyState := (currentKeyState s)[unat keyIndex := isPressed]\<rparr>
      in if currentKeyState s1 ! unat keyIndex \<noteq> lastKeyState s1 ! unat keyIndex then
           queueKeyEvent keyIndex isPressed
             (s1\<lparr>lastKeyState :=
                   (lastKeyState s1)[unat keyIndex := currentKeyState s1 ! unat keyIndex]\<rparr>)
         else s1)"

function scan_cols :: "(nat \<Rightarrow> nat \<Rightarrow> bool) \<Rightarrow> nat \<Rightarrow> nat \<Rightarrow> firmware \<Rightarrow> firmware" where
  "scan_cols sense row col s =
     (if col < COL_COUNT then scan_cols sense row (col + 1) (scan_key sense row col s)
      else s)"
  by pat_completeness auto
termination
  by (relation "measure (\<lambda>(sense, row, col, s). COL_COUNT - col)") auto

declare scan_cols.simps [simp del]

function scan_rows :: "(nat \<Rightarrow> nat \<Rightarrow> bool) \<Rightarrow> nat \<Rightarrow> firmware \<Rightarrow> firmware" where
  "scan_rows sense row s =
     (if row < ROW_COUNT then
        scan_rows sense (row + 1)
          (scan_cols sense row 0 (digitalWrite (ROWS ! row) False (write_rows True 0 s)))
      else s)"
  by pat_completeness auto
termination
  by (relation "measure (\<lambda>(sense, row, s). ROW_COUNT - row)") auto

declare scan_rows.simps [simp del]

definition scanKeypad :: "(nat \<Rightarrow> nat \<Rightarrow> bool) \<Rightarrow> firmware \<Rightarrow> firmware" where
  "scanKeypad sense s = write_rows True 0 (scan_rows sense 0 s)"

text \<open>
  What the specification says of one scan, in its own words: every key is compared
  with its stored previous value, and every key that changed gives one event, rows
  first and columns within a row. \<open>pressed_byte\<close> is the sensed state of a key as the
  byte the sketch stores, \<open>sensed\<close> the twelve sensed states in key order, and
  \<open>transitions sense prev\<close> the events of the keys whose sensed state differs from the
  stored one in \<open>prev\<close>.
\<close>

definition pressed_byte :: "(nat \<Rightarrow> nat \<Rightarrow> bool) \<Rightarrow> nat \<Rightarrow> nat \<Rightarrow> u8" where
  "pressed_byte sense row col = (if sense row col then 1 else 0)"

definition sensed :: "(nat \<Rightarrow> nat \<Rightarrow> bool) \<Rightarrow> u8 list" where
  "sensed sense =
     concat (map (\<lambda>row. map (\<lambda>col. pressed_byte sense row col) [0..<COL_COUNT])
       [0..<ROW_COUNT])"

definition transitions :: "(nat \<Rightarrow> nat \<Rightarrow> bool) \<Rightarrow> u8 list \<Rightarrow> (u8 \<times> u8) list" where
  "transitions sense prev =
     concat (map (\<lambda>row. concat (map (\<lambda>col.
         if pressed_byte sense row col \<noteq> prev ! (row * COL_COUNT + col)
         then [(of_nat (row * COL_COUNT + col), pressed_byte sense row col)] else [])
       [0..<COL_COUNT])) [0..<ROW_COUNT])"

section \<open>Sleep and the control loop\<close>

text \<open>
  The two wake lines raise \<open>INT0\<close> and \<open>INT1\<close>; both handlers set the wake flag.
\<close>

datatype irq = INT0 | INT1

fun ISR :: "irq \<Rightarrow> firmware \<Rightarrow> firmware" where
  "ISR INT1 s = s\<lparr>systemWakeUp := True\<rparr>"
| "ISR INT0 s = s\<lparr>systemWakeUp := True\<rparr>"

definition power_disable :: "peripheral \<Rightarrow> firmware \<Rightarrow> firmware" where
  "power_disable p s = s\<lparr>prr := insert p (prr s)\<rparr>"

definition power_enable :: "peripheral \<Rightarrow> firmware \<Rightarrow> firmware" where
  "power_enable p s = s\<lparr>prr := prr s - {p}\<rparr>"

text \<open>
  \<open>enterSleep\<close> in three parts: \<open>sleep_prepare\<close> is the code before \<open>sleep_cpu()\<close>
  (the six subsystems switched off, the rows driven low), \<open>sleep_resume\<close> the code
  after it (two subsystems switched on, the rows driven high). \<open>sleep_cpu()\<close> halts
  the processor until an interrupt; the model takes the wake-line interrupt that ends
  the sleep as an input and runs its handler in between. The sleep-mode register and
  the global interrupt flag are not part of the state.
\<close>

definition sleep_prepare :: "firmware \<Rightarrow> firmware" where
  "sleep_prepare s =
     write_rows False 0
       (power_disable ADC (power_disable USART0 (power_disable SPI
         (power_disable Timer2 (power_disable Timer1 (power_disable Timer0 s))))))"

definition sleep_resume :: "firmware \<Rightarrow> firmware" where
  "sleep_resume s = write_rows True 0 (power_enable USART0 (power_enable Timer0 s))"

definition enterSleep :: "irq \<Rightarrow> firmware \<Rightarrow> firmware" where
  "enterSleep wake s = sleep_resume (ISR wake (sleep_prepare s))"

text \<open>
  One pass of \<open>loop\<close>. Its inputs are the interrupt that ends the sleep (used only when
  the pass sleeps), the two values read from \<open>millis()\<close> and the readings of the
  matrix. Besides the new state the model returns what the pass did, in order:
  \<open>Slept\<close> when it called \<open>enterSleep\<close>, \<open>Scanned\<close> when it called \<open>scanKeypad\<close>. The
  differences of the clock values are 32-bit and wrap. The last \<open>if\<close> of the pass has
  an empty body.
\<close>

datatype activity = Slept | Scanned

definition loop ::
  "irq \<Rightarrow> u32 \<Rightarrow> u32 \<Rightarrow> (nat \<Rightarrow> nat \<Rightarrow> bool) \<Rightarrow> firmware \<Rightarrow> activity list \<times> firmware" where
  "loop wake now later sense s =
     (let (did1, s1) = (if \<not> systemWakeUp s then ([Slept], enterSleep wake s) else ([], s));
          s2 = s1\<lparr>systemWakeUp := False\<rparr>;
          (did2, s3) = (if now - lastScanTime s2 \<ge> SCAN_INTERVAL_MS
                        then ([Scanned], (scanKeypad sense s2)\<lparr>lastScanTime := now\<rparr>)
                        else ([], s2));
          s4 = (if later - lastScanTime s3 > DEBOUNCE_MS then s3 else s3)
      in (did1 @ did2, s4))"

text \<open>Two readings of the matrix for concrete runs: no key down, and only key 5 down.\<close>

definition no_keys :: "nat \<Rightarrow> nat \<Rightarrow> bool" where
  "no_keys row col = False"

definition key5_down :: "nat \<Rightarrow> nat \<Rightarrow> bool" where
  "key5_down row col = (row = 1 \<and> col = 2)"

section \<open>Properties of the event queue\<close>

lemma unat_succ_u8: "unat (w :: u8) < 255 \<Longrightarrow> unat (w + 1) = unat w + 1"
  by (simp add: unat_word_ariths)

lemma unat_plus2_u8: "unat (w :: u8) + 2 \<le> 16 \<Longrightarrow> unat (w + 2) = unat w + 2"
  by (simp add: unat_word_ariths)

lemma queueKeyEvent_full:
  "\<not> unat (i2cWriteIndex s) + 2 \<le> I2C_BUFFER_SIZE \<Longrightarrow> queueKeyEvent k p s = s"
  by (simp add: queueKeyEvent_def)

lemma queueKeyEvent_room:
  assumes "unat (i2cWriteIndex s) + 2 \<le> I2C_BUFFER_SIZE"
  shows "queueKeyEvent k p s =
     s\<lparr>i2cBuffer := (i2cBuffer s)[unat (i2cWriteIndex s) := k,
                       unat (i2cWriteIndex s) + 1 := (if p \<noteq> 0 then 0x80 else 0x00)],
       i2cWriteIndex := i2cWriteIndex s + 2, newKeyEvent := True\<rparr>"
  using assms by (simp add: queueKeyEvent_def Let_def I2C_BUFFER_SIZE_def unat_succ_u8)

lemma take_two_updates:
  "n + 2 \<le> length xs \<Longrightarrow>
   take (Suc (Suc n)) (xs[n := a, Suc n := b]) = take n xs @ [a, b]"
  by (simp add: take_Suc_conv_app_nth list_eq_iff_nth_eq nth_append nth_list_update)

lemma queueKeyEvent_length [simp]:
  "length (i2cBuffer (queueKeyEvent k p s)) = length (i2cBuffer s)"
  by (simp add: queueKeyEvent_def Let_def)

lemma queueKeyEvent_register [simp]:
  "currentRegister (queueKeyEvent k p s) = currentRegister s"
  by (simp add: queueKeyEvent_def Let_def)

lemma queue_contents_room:
  assumes "unat (i2cWriteIndex s) + 2 \<le> I2C_BUFFER_SIZE"
    and "length (i2cBuffer s) = I2C_BUFFER_SIZE"
  shows "queue_contents (queueKeyEvent k p s) = queue_contents s @ encode (k, p)"
  using assms
  by (simp add: queueKeyEvent_room queue_contents_def encode_def I2C_BUFFER_SIZE_def
      unat_plus2_u8 take_two_updates)

lemma queueKeyEvent_index_room:
  "unat (i2cWriteIndex s) + 2 \<le> I2C_BUFFER_SIZE \<Longrightarrow>
   unat (i2cWriteIndex (queueKeyEvent k p s)) = unat (i2cWriteIndex s) + 2"
  by (simp add: queueKeyEvent_room I2C_BUFFER_SIZE_def unat_plus2_u8)

lemma queueKeyEvent_index_bound:
  "unat (i2cWriteIndex s) \<le> I2C_BUFFER_SIZE \<Longrightarrow>
   unat (i2cWriteIndex (queueKeyEvent k p s)) \<le> I2C_BUFFER_SIZE"
  by (cases "unat (i2cWriteIndex s) + 2 \<le> I2C_BUFFER_SIZE")
    (simp_all add: queueKeyEvent_index_room queueKeyEvent_full)

lemma enqueue_all_full:
  "\<not> unat (i2cWriteIndex s) + 2 \<le> I2C_BUFFER_SIZE \<Longrightarrow> enqueue_all evs s = s"
  by (induction evs) (simp_all add: queueKeyEvent_full)

lemma enqueue_all_length [simp]:
  "length (i2cBuffer (enqueue_all evs s)) = length (i2cBuffer s)"
  by (induction evs arbitrary: s) simp_all

lemma enqueue_all_register [simp]:
  "currentRegister (enqueue_all evs s) = currentRegister s"
  by (induction evs arbitrary: s) simp_all

lemma enqueue_all_append:
  "enqueue_all (xs @ ys) s = enqueue_all ys (enqueue_all xs s)"
  by (induction xs arbitrary: s) simp_all

lemma queue_contents_enqueue_all:
  assumes "length (i2cBuffer s) = I2C_BUFFER_SIZE"
  shows "queue_contents (enqueue_all evs s) =
     queue_contents s @
     concat (map encode (take ((I2C_BUFFER_SIZE - unat (i2cWriteIndex s)) div 2) evs))"
  using assms
proof (induction evs arbitrary: s)
  case Nil
  then show ?case by simp
next
  case (Cons e evs)
  show ?case
  proof (cases "unat (i2cWriteIndex s) + 2 \<le> I2C_BUFFER_SIZE")
    case True
    let ?s' = "queueKeyEvent (fst e) (snd e) s"
    have len: "length (i2cBuffer ?s') = I2C_BUFFER_SIZE"
      using Cons.prems by simp
    have idx: "unat (i2cWriteIndex ?s') = unat (i2cWriteIndex s) + 2"
      using True by (rule queueKeyEvent_index_room)
    have free: "(I2C_BUFFER_SIZE - unat (i2cWriteIndex s)) div 2 =
        Suc ((I2C_BUFFER_SIZE - unat (i2cWriteIndex ?s')) div 2)"
      using True idx by (simp add: I2C_BUFFER_SIZE_def)
    have "queue_contents (enqueue_all (e # evs) s) =
        queue_contents ?s' @
        concat (map encode (take ((I2C_BUFFER_SIZE - unat (i2cWriteIndex ?s')) div 2) evs))"
      using Cons.IH [OF len] by simp
    also have "queue_contents ?s' = queue_contents s @ encode e"
      using queue_contents_room [OF True Cons.prems, of "fst e" "snd e"] by simp
    finally show ?thesis by (simp add: free)
  next
    case False
    then have "(I2C_BUFFER_SIZE - unat (i2cWriteIndex s)) div 2 = 0"
      by (simp add: I2C_BUFFER_SIZE_def)
    with False show ?thesis by (simp add: enqueue_all_full del: enqueue_all.simps)
  qed
qed

lemma receive_data_register [simp]:
  "currentRegister (receive_data n rx s) = currentRegister s"
  by (induction n rx s rule: receive_data.induct) simp_all

lemma receive_data_index_bound:
  "unat (i2cWriteIndex s) \<le> I2C_BUFFER_SIZE \<Longrightarrow>
   unat (i2cWriteIndex (receive_data n rx s)) \<le> I2C_BUFFER_SIZE"
proof (induction n rx s rule: receive_data.induct)
  case (1 byteCount s)
  then show ?case by simp
next
  case (2 byteCount data rx s)
  show ?case
  proof (cases "byteCount > 0")
    case True
    have "unat (i2cWriteIndex s) < I2C_BUFFER_SIZE \<Longrightarrow>
        unat (i2cWriteIndex s + 1) \<le> I2C_BUFFER_SIZE"
      by (simp add: I2C_BUFFER_SIZE_def unat_succ_u8)
    with True 2 show ?thesis by simp
  next
    case False
    with 2 show ?thesis by simp
  qed
qed

lemma receive_data_length [simp]:
  "length (i2cBuffer (receive_data n rx s)) = length (i2cBuffer s)"
  by (induction n rx s rule: receive_data.induct) simp_all

lemma onI2CReceive_index_bound:
  "unat (i2cWriteIndex s) \<le> I2C_BUFFER_SIZE \<Longrightarrow>
   unat (i2cWriteIndex (onI2CReceive n rx s)) \<le> I2C_BUFFER_SIZE"
  by (simp add: onI2CReceive_def receive_data_index_bound split: prod.splits)

lemma onI2CReceive_selects:
  "0 < n \<Longrightarrow> currentRegister (onI2CReceive n (reg # data) s) = reg"
  by (simp add: onI2CReceive_def Wire_read_def)

text \<open>
  Claim C6. When fewer than two bytes of the buffer are free, \<open>queueKeyEvent\<close> changes
  nothing: every buffered byte and the write index stay as they were, and neither byte
  of the new event is stored.
\<close>

theorem queueKeyEvent_drops_when_full:
  "I2C_BUFFER_SIZE - unat (i2cWriteIndex s) < 2 \<Longrightarrow> queueKeyEvent keyIndex pressed s = s"
  by (rule queueKeyEvent_full) arith

theorem queueKeyEvent_drops_when_full_witness:
  "I2C_BUFFER_SIZE - unat (i2cWriteIndex (initial\<lparr>i2cWriteIndex := 15\<rparr>)) < 2 \<and>
   queueKeyEvent 7 1 (initial\<lparr>i2cWriteIndex := 15\<rparr>) = initial\<lparr>i2cWriteIndex := 15\<rparr>"
proof -
  have h: "I2C_BUFFER_SIZE - unat (i2cWriteIndex (initial\<lparr>i2cWriteIndex := 15\<rparr>)) < 2"
    by (simp add: I2C_BUFFER_SIZE_def)
  show ?thesis
    using h queueKeyEvent_drops_when_full [OF h, of 7 1] by simp
qed

text \<open>
  Claim C10. When at least two bytes are free, \<open>queueKeyEvent\<close> leaves the bytes already
  buffered as they were, appends the key index and then \<open>0x80\<close> for a press or \<open>0x00\<close>
  for a release, and moves the write index forward by exactly two.
\<close>

theorem queueKeyEvent_appends_event:
  assumes "2 \<le> I2C_BUFFER_SIZE - unat (i2cWriteIndex s)"
    and "length (i2cBuffer s) = I2C_BUFFER_SIZE"
  shows "take (unat (i2cWriteIndex s)) (i2cBuffer (queueKeyEvent keyIndex pressed s)) =
           take (unat (i2cWriteIndex s)) (i2cBuffer s) \<and>
         queue_contents (queueKeyEvent keyIndex pressed s) =
           queue_contents s @ [keyIndex, if pressed \<noteq> 0 then 0x80 else 0x00] \<and>
         unat (i2cWriteIndex (queueKeyEvent keyIndex pressed s)) =
           unat (i2cWriteIndex s) + 2"
proof -
  from assms(1) have room: "unat (i2cWriteIndex s) + 2 \<le> I2C_BUFFER_SIZE"
    by arith
  have "take (unat (i2cWriteIndex s)) (i2cBuffer (queueKeyEvent keyIndex pressed s)) =
      take (unat (i2cWriteIndex s)) (i2cBuffer s)"
    by (simp add: queueKeyEvent_room [OF room])
  moreover have "queue_contents (queueKeyEvent keyIndex pressed s) =
      queue_contents s @ [keyIndex, if pressed \<noteq> 0 then 0x80 else 0x00]"
    using queue_contents_room [OF room assms(2), of keyIndex pressed]
    by (simp add: encode_def)
  moreover have "unat (i2cWriteIndex (queueKeyEvent keyIndex pressed s)) =
      unat (i2cWriteIndex s) + 2"
    using room by (rule queueKeyEvent_index_room)
  ultimately show ?thesis by simp
qed

theorem queueKeyEvent_appends_event_witness:
  "2 \<le> I2C_BUFFER_SIZE - unat (i2cWriteIndex initial) \<and>
   length (i2cBuffer initial) = I2C_BUFFER_SIZE \<and>
   queue_contents (queueKeyEvent 7 1 initial) = [7, 0x80] \<and>
   unat (i2cWriteIndex (queueKeyEvent 7 1 initial)) = 2"
proof -
  have h1: "2 \<le> I2C_BUFFER_SIZE - unat (i2cWriteIndex initial)"
    by (simp add: I2C_BUFFER_SIZE_def initial_def)
  have h2: "length (i2cBuffer initial) = I2C_BUFFER_SIZE"
    by (simp add: I2C_BUFFER_SIZE_def initial_def)
  have q: "queue_contents initial = []"
    by (simp add: queue_contents_def initial_def)
  have i: "unat (i2cWriteIndex initial) = 0"
    by (simp add: initial_def)
  show ?thesis
    using h1 h2 queueKeyEvent_appends_event [OF h1 h2, of 7 1] by (simp add: q i)
qed

text \<open>
  Claim C9. From an empty queue, a press of key 5 and then a release of key 5, read
  back through the event-buffer register \<open>0x84\<close>, give the bytes \<open>5, 0x80, 5, 0x00\<close>.
\<close>

theorem press_release_key5_read:
  assumes "i2cWriteIndex s = 0"
    and "length (i2cBuffer s) = I2C_BUFFER_SIZE"
    and "currentRegister s = 0x84"
  shows "fst (onI2CRequest (queueKeyEvent 5 0 (queueKeyEvent 5 1 s))) = [5, 0x80, 5, 0x00]"
proof -
  have "queue_contents (enqueue_all [(5, 1), (5, 0)] s) =
      queue_contents s @ concat (map encode (take 8 [(5, 1), (5, 0)]))"
    using queue_contents_enqueue_all [OF assms(2), of "[(5, 1), (5, 0)]"] assms(1)
    by (simp add: I2C_BUFFER_SIZE_def)
  then have "queue_contents (queueKeyEvent 5 0 (queueKeyEvent 5 1 s)) = [5, 0x80, 5, 0x00]"
    using assms(1) by (simp add: encode_def queue_contents_def)
  then show ?thesis
    using assms(3) by (simp add: onI2CRequest_def queue_contents_def)
qed

theorem press_release_key5_read_witness:
  "i2cWriteIndex (initial\<lparr>currentRegister := 0x84\<rparr>) = 0 \<and>
   length (i2cBuffer (initial\<lparr>currentRegister := 0x84\<rparr>)) = I2C_BUFFER_SIZE \<and>
   currentRegister (initial\<lparr>currentRegister := 0x84\<rparr>) = 0x84 \<and>
   fst (onI2CRequest (queueKeyEvent 5 0 (queueKeyEvent 5 1 (initial\<lparr>currentRegister := 0x84\<rparr>))))
     = [5, 0x80, 5, 0x00]"
proof -
  let ?s = "initial\<lparr>currentRegister := 0x84\<rparr>"
  have h1: "i2cWriteIndex ?s = 0" by (simp add: initial_def)
  have h2: "length (i2cBuffer ?s) = I2C_BUFFER_SIZE"
    by (simp add: initial_def I2C_BUFFER_SIZE_def)
  have h3: "currentRegister ?s = 0x84" by simp
  show ?thesis
    using h1 h2 h3 press_release_key5_read [OF h1 h2 h3] by simp
qed

text \<open>
  Claim C8. With the identification-probe register \<open>0x90\<close> selected, a read answers
  the single byte \<open>0x00\<close> and leaves the whole state, the queue included, unchanged;
  this holds in every state and after every write transaction that selects \<open>0x90\<close>,
  whatever data bytes follow the selector.
\<close>

theorem probe_read_returns_zero:
  "(currentRegister s = 0x90 \<longrightarrow> onI2CRequest s = ([0x00], s)) \<and>
   (0 < byteCount \<longrightarrow>
      onI2CRequest (onI2CReceive byteCount (0x90 # data) s) =
        ([0x00], onI2CReceive byteCount (0x90 # data) s))"
  by (simp add: onI2CRequest_def onI2CReceive_selects)

theorem probe_read_returns_zero_witness:
  "currentRegister (initial\<lparr>currentRegister := 0x90\<rparr>) = 0x90 \<and>
   onI2CRequest (initial\<lparr>currentRegister := 0x90\<rparr>) =
     ([0x00], initial\<lparr>currentRegister := 0x90\<rparr>) \<and>
   (0::int) < 3 \<and>
   fst (onI2CRequest (onI2CReceive 3 [0x90, 0x11, 0x22] initial)) = [0x00] \<and>
   queue_contents (snd (onI2CRequest (onI2CReceive 3 [0x90, 0x11, 0x22] initial))) =
     [0x11, 0x22]"
proof -
  have q: "queue_contents (onI2CReceive 3 [0x90, 0x11, 0x22] initial) = [0x11, 0x22]"
    by (simp add: onI2CReceive_def Wire_read_def queue_contents_def initial_def
        I2C_BUFFER_SIZE_def)
  show ?thesis
    using probe_read_returns_zero [of "initial\<lparr>currentRegister := 0x90\<rparr>" 3 "[0x11, 0x22]"]
      probe_read_returns_zero [of initial 3 "[0x11, 0x22]"] q
    by simp
qed

text \<open>
  Claim C7. The write index never exceeds the capacity of 16 bytes: it is within the
  capacity at start-up, and enqueuing an event, capturing the data bytes of a write
  transaction and serving a read each keep it within the capacity.
\<close>

theorem write_index_within_capacity:
  "unat (i2cWriteIndex initial) \<le> I2C_BUFFER_SIZE \<and>
   (unat (i2cWriteIndex s) \<le> I2C_BUFFER_SIZE \<longrightarrow>
      unat (i2cWriteIndex (queueKeyEvent keyIndex pressed s)) \<le> I2C_BUFFER_SIZE \<and>
      unat (i2cWriteIndex (onI2CReceive byteCount rx s)) \<le> I2C_BUFFER_SIZE \<and>
      unat (i2cWriteIndex (snd (onI2CRequest s))) \<le> I2C_BUFFER_SIZE)"
proof -
  have "unat (i2cWriteIndex initial) \<le> I2C_BUFFER_SIZE"
    by (simp add: initial_def)
  moreover have "unat (i2cWriteIndex (snd (onI2CRequest s))) \<le> I2C_BUFFER_SIZE"
    if "unat (i2cWriteIndex s) \<le> I2C_BUFFER_SIZE"
    using that by (simp add: onI2CRequest_def)
  ultimately show ?thesis
    by (simp add: queueKeyEvent_index_bound onI2CReceive_index_bound)
qed

theorem write_index_within_capacity_witness:
  "unat (i2cWriteIndex (initial\<lparr>i2cWriteIndex := 15\<rparr>)) \<le> I2C_BUFFER_SIZE \<and>
   unat (i2cWriteIndex (queueKeyEvent 7 1 (initial\<lparr>i2cWriteIndex := 15\<rparr>))) \<le> I2C_BUFFER_SIZE \<and>
   unat (i2cWriteIndex (onI2CReceive 3 [0x84, 0x11, 0x22] (initial\<lparr>i2cWriteIndex := 15\<rparr>)))
     \<le> I2C_BUFFER_SIZE \<and>
   unat (i2cWriteIndex (snd (onI2CRequest (initial\<lparr>i2cWriteIndex := 15\<rparr>)))) \<le> I2C_BUFFER_SIZE"
proof -
  have h: "unat (i2cWriteIndex (initial\<lparr>i2cWriteIndex := 15\<rparr>)) \<le> I2C_BUFFER_SIZE"
    by (simp add: I2C_BUFFER_SIZE_def)
  show ?thesis
    using h write_index_within_capacity
      [of "initial\<lparr>i2cWriteIndex := 15\<rparr>" 7 1 3 "[0x84, 0x11, 0x22]"]
    by blast
qed

text \<open>
  Claim C1. In every state of the queue, a read with the event-buffer register \<open>0x84\<close>
  selected answers the contents of the queue in the order they were stored and empties
  the queue; a second read right after it answers no byte; and after any run of
  enqueue calls that follows a read, the next read answers exactly the bytes of the
  events that were admitted since, in the order of the calls (the queue admits eight
  events and drops the later ones whole).
\<close>

theorem event_read_drains_queue:
  assumes "length (i2cBuffer s) = I2C_BUFFER_SIZE"
    and "unat (i2cWriteIndex s) \<le> I2C_BUFFER_SIZE"
    and "currentRegister s = 0x84"
  shows "onI2CRequest s = (queue_contents s, s\<lparr>i2cWriteIndex := 0\<rparr>) \<and>
         queue_contents (snd (onI2CRequest s)) = [] \<and>
         fst (onI2CRequest (snd (onI2CRequest s))) = [] \<and>
         fst (onI2CRequest (enqueue_all evs (snd (onI2CRequest s)))) =
           concat (map encode (take (I2C_BUFFER_SIZE div 2) evs))"
proof -
  let ?s0 = "s\<lparr>i2cWriteIndex := 0\<rparr>"
  have rd: "onI2CRequest s = (queue_contents s, ?s0)"
    using assms(3) by (simp add: onI2CRequest_def queue_contents_def)
  have empty: "queue_contents ?s0 = []"
    by (simp add: queue_contents_def)
  have again: "fst (onI2CRequest ?s0) = []"
    using assms(3) by (simp add: onI2CRequest_def)
  have len: "length (i2cBuffer ?s0) = I2C_BUFFER_SIZE"
    using assms(1) by simp
  have "fst (onI2CRequest (enqueue_all evs ?s0)) = queue_contents (enqueue_all evs ?s0)"
    using assms(3) by (simp add: onI2CRequest_def queue_contents_def)
  also have "\<dots> = concat (map encode (take (I2C_BUFFER_SIZE div 2) evs))"
    using queue_contents_enqueue_all [OF len, of evs] by (simp add: empty)
  finally show ?thesis
    using rd empty again by simp
qed

theorem event_read_drains_queue_witness:
  "length (i2cBuffer (queueKeyEvent 3 1 (initial\<lparr>currentRegister := 0x84\<rparr>))) = I2C_BUFFER_SIZE \<and>
   unat (i2cWriteIndex (queueKeyEvent 3 1 (initial\<lparr>currentRegister := 0x84\<rparr>)))
     \<le> I2C_BUFFER_SIZE \<and>
   currentRegister (queueKeyEvent 3 1 (initial\<lparr>currentRegister := 0x84\<rparr>)) = 0x84 \<and>
   fst (onI2CRequest (queueKeyEvent 3 1 (initial\<lparr>currentRegister := 0x84\<rparr>))) = [3, 0x80] \<and>
   fst (onI2CRequest (snd (onI2CRequest (queueKeyEvent 3 1 (initial\<lparr>currentRegister := 0x84\<rparr>)))))
     = [] \<and>
   fst (onI2CRequest (enqueue_all [(7, 1), (7, 0)]
      (snd (onI2CRequest (queueKeyEvent 3 1 (initial\<lparr>currentRegister := 0x84\<rparr>))))))
     = [7, 0x80, 7, 0x00]"
proof -
  let ?s = "queueKeyEvent 3 1 (initial\<lparr>currentRegister := 0x84\<rparr>)"
  have h1: "length (i2cBuffer ?s) = I2C_BUFFER_SIZE"
    by (simp add: initial_def I2C_BUFFER_SIZE_def)
  have h2: "unat (i2cWriteIndex ?s) \<le> I2C_BUFFER_SIZE"
    by (simp add: queueKeyEvent_def initial_def I2C_BUFFER_SIZE_def)
  have h3: "currentRegister ?s = 0x84" by simp
  have q: "queue_contents ?s = [3, 0x80]"
    by (simp add: queueKeyEvent_def queue_contents_def initial_def I2C_BUFFER_SIZE_def)
  have e: "concat (map encode (take (I2C_BUFFER_SIZE div 2) [(7, 1), (7, 0)])) =
      [7, 0x80, 7, 0x00]"
    by (simp add: encode_def I2C_BUFFER_SIZE_def)
  note drained = event_read_drains_queue [OF h1 h2 h3, of "[(7, 1), (7, 0)]"]
  from drained have "fst (onI2CRequest ?s) = queue_contents ?s"
    by (simp only: fst_conv)
  then have first: "fst (onI2CRequest ?s) = [3, 0x80]"
    by (simp only: q)
  from drained have second: "fst (onI2CRequest (snd (onI2CRequest ?s))) = []"
    by blast
  from drained have "fst (onI2CRequest (enqueue_all [(7, 1), (7, 0)] (snd (onI2CRequest ?s)))) =
      concat (map encode (take (I2C_BUFFER_SIZE div 2) [(7, 1), (7, 0)]))"
    by blast
  then have third:
    "fst (onI2CRequest (enqueue_all [(7, 1), (7, 0)] (snd (onI2CRequest ?s)))) =
       [7, 0x80, 7, 0x00]"
    by (simp only: e)
  from h1 h2 h3 first second third show ?thesis
    by blast
qed

text \<open>
  Claim C3. The claim says that the data bytes of a write transaction never show in
  an event-buffer read. The sketch stores them in the event buffer itself: from the
  empty queue, the write transaction \<open>0x84, 0xAA\<close> makes the next event-buffer read
  answer \<open>0xAA\<close>, where a read of the untouched queue answers no byte.
\<close>

theorem write_data_enters_event_queue:
  "fst (onI2CRequest (initial\<lparr>currentRegister := 0x84\<rparr>)) = [] \<and>
   fst (onI2CRequest (onI2CReceive 2 [0x84, 0xAA] initial)) = [0xAA]"
  by (simp add: onI2CRequest_def onI2CReceive_def Wire_read_def initial_def
      I2C_BUFFER_SIZE_def)

section \<open>Properties of the scanner\<close>

lemma write_rows_step:
  "i < ROW_COUNT \<Longrightarrow>
   write_rows level i s = write_rows level (Suc i) (digitalWrite (ROWS ! i) level s)"
  by (subst write_rows.simps) simp

lemma write_rows_done: "\<not> i < ROW_COUNT \<Longrightarrow> write_rows level i s = s"
  by (subst write_rows.simps) simp

lemma write_rows_all:
  "write_rows level 0 s =
     s\<lparr>pinLevel := (pinLevel s)(2 := level, 4 := level, 5 := level, 10 := level)\<rparr>"
  by (simp add: write_rows_step write_rows_done ROW_COUNT_def ROWS_def digitalWrite_def)

lemma scan_cols_step:
  "col < COL_COUNT \<Longrightarrow>
   scan_cols sense row col s = scan_cols sense row (Suc col) (scan_key sense row col s)"
  by (subst scan_cols.simps) simp

lemma scan_cols_done: "\<not> col < COL_COUNT \<Longrightarrow> scan_cols sense row col s = s"
  by (subst scan_cols.simps) simp

lemma scan_cols_unroll:
  "scan_cols sense row 0 s =
     scan_key sense row 2 (scan_key sense row 1 (scan_key sense row 0 s))"
  by (simp add: scan_cols_step scan_cols_done COL_COUNT_def eval_nat_numeral)

lemma scan_rows_step:
  "row < ROW_COUNT \<Longrightarrow>
   scan_rows sense row s =
     scan_rows sense (Suc row)
       (scan_cols sense row 0 (digitalWrite (ROWS ! row) False (write_rows True 0 s)))"
  by (subst scan_rows.simps) simp

lemma scan_rows_done: "\<not> row < ROW_COUNT \<Longrightarrow> scan_rows sense row s = s"
  by (subst scan_rows.simps) simp

lemma scan_rows_unroll:
  "scan_rows sense 0 s =
     scan_cols sense 3 0 (digitalWrite 10 False (write_rows True 0
       (scan_cols sense 2 0 (digitalWrite 5 False (write_rows True 0
         (scan_cols sense 1 0 (digitalWrite 4 False (write_rows True 0
           (scan_cols sense 0 0 (digitalWrite 2 False (write_rows True 0 s)))))))))))"
  by (simp add: scan_rows_step scan_rows_done ROW_COUNT_def ROWS_def eval_nat_numeral)

lemma queueKeyEvent_pinLevel_update:
  "queueKeyEvent k p (pinLevel_update g s) = pinLevel_update g (queueKeyEvent k p s)"
  by (simp add: queueKeyEvent_def Let_def)

lemma queueKeyEvent_currentKeyState_update:
  "queueKeyEvent k p (currentKeyState_update g s) =
     currentKeyState_update g (queueKeyEvent k p s)"
  by (simp add: queueKeyEvent_def Let_def)

lemma queueKeyEvent_lastKeyState_update:
  "queueKeyEvent k p (lastKeyState_update g s) = lastKeyState_update g (queueKeyEvent k p s)"
  by (simp add: queueKeyEvent_def Let_def)

lemma enqueue_all_pinLevel_update:
  "enqueue_all evs (pinLevel_update g s) = pinLevel_update g (enqueue_all evs s)"
  by (induction evs arbitrary: s) (simp_all add: queueKeyEvent_pinLevel_update)

lemma enqueue_all_currentKeyState_update:
  "enqueue_all evs (currentKeyState_update g s) = currentKeyState_update g (enqueue_all evs s)"
  by (induction evs arbitrary: s) (simp_all add: queueKeyEvent_currentKeyState_update)

lemma enqueue_all_lastKeyState_update:
  "enqueue_all evs (lastKeyState_update g s) = lastKeyState_update g (enqueue_all evs s)"
  by (induction evs arbitrary: s) (simp_all add: queueKeyEvent_lastKeyState_update)

lemma queueKeyEvent_keys [simp]:
  "currentKeyState (queueKeyEvent k p s) = currentKeyState s"
  "lastKeyState (queueKeyEvent k p s) = lastKeyState s"
  "pinLevel (queueKeyEvent k p s) = pinLevel s"
  by (simp_all add: queueKeyEvent_def Let_def)

lemma enqueue_all_keys [simp]:
  "currentKeyState (enqueue_all evs s) = currentKeyState s"
  "lastKeyState (enqueue_all evs s) = lastKeyState s"
  "pinLevel (enqueue_all evs s) = pinLevel s"
  by (induction evs arbitrary: s) simp_all

lemma scan_key_event:
  assumes "row * COL_COUNT + col < length (lastKeyState s)"
    and "length (currentKeyState s) = length (lastKeyState s)"
    and "length (lastKeyState s) \<le> 256"
  shows "scan_key sense row col s =
    enqueue_all
      (if pressed_byte sense row col \<noteq> lastKeyState s ! (row * COL_COUNT + col)
       then [(of_nat (row * COL_COUNT + col), pressed_byte sense row col)] else [])
      (s\<lparr>currentKeyState :=
           (currentKeyState s)[row * COL_COUNT + col := pressed_byte sense row col],
         lastKeyState :=
           (lastKeyState s)[row * COL_COUNT + col := pressed_byte sense row col]\<rparr>)"
proof -
  let ?k = "row * COL_COUNT + col"
  let ?p = "pressed_byte sense row col"
  have k: "unat (of_nat ?k :: u8) = ?k"
    using assms by (intro of_nat_inverse) simp_all
  have p: "(if sense row col then 1 else 0 :: u8) = ?p"
    by (simp add: pressed_byte_def)
  have len: "?k < length (currentKeyState s)"
    using assms by simp
  show ?thesis
  proof (cases "?p = lastKeyState s ! ?k")
    case True
    then have "(lastKeyState s)[?k := ?p] = lastKeyState s"
      by simp
    with True len show ?thesis
      unfolding scan_key_def Let_def k p by simp
  next
    case False
    with len show ?thesis
      unfolding scan_key_def Let_def k p by simp
  qed
qed


lemma scan_key_acc:
  assumes "row * COL_COUNT + col < length l"
    and "length c = length l"
    and "length l \<le> 256"
  shows "scan_key sense row col
           (enqueue_all evs (s\<lparr>currentKeyState := c, lastKeyState := l\<rparr>)) =
         enqueue_all
           (evs @ (if pressed_byte sense row col \<noteq> l ! (row * COL_COUNT + col)
                   then [(of_nat (row * COL_COUNT + col), pressed_byte sense row col)]
                   else []))
           (s\<lparr>currentKeyState := c[row * COL_COUNT + col := pressed_byte sense row col],
              lastKeyState := l[row * COL_COUNT + col := pressed_byte sense row col]\<rparr>)"
proof -
  let ?X = "enqueue_all evs (s\<lparr>currentKeyState := c, lastKeyState := l\<rparr>)"
  have "row * COL_COUNT + col < length (lastKeyState ?X)"
    and "length (currentKeyState ?X) = length (lastKeyState ?X)"
    and "length (lastKeyState ?X) \<le> 256"
    using assms by simp_all
  from scan_key_event [OF this, of sense]
  show ?thesis
    by (simp add: enqueue_all_append enqueue_all_currentKeyState_update [symmetric]
        enqueue_all_lastKeyState_update [symmetric])
qed


lemma cols_list: "[0..<COL_COUNT] = [0, 1, 2]"
  by (simp add: COL_COUNT_def upt_conv_Cons)

lemma rows_list: "[0..<ROW_COUNT] = [0, 1, 2, 3]"
  by (simp add: ROW_COUNT_def upt_conv_Cons)

lemma scan_cols_acc:
  assumes "row * COL_COUNT + 2 < length l"
    and "length c = length l"
    and "length l \<le> 256"
  shows "scan_cols sense row 0
           (enqueue_all evs (s\<lparr>currentKeyState := c, lastKeyState := l\<rparr>)) =
         enqueue_all
           (evs @ concat (map (\<lambda>col.
              if pressed_byte sense row col \<noteq> l ! (row * COL_COUNT + col)
              then [(of_nat (row * COL_COUNT + col), pressed_byte sense row col)] else [])
              [0..<COL_COUNT]))
           (s\<lparr>currentKeyState := c[row * COL_COUNT + 0 := pressed_byte sense row 0,
                 row * COL_COUNT + 1 := pressed_byte sense row 1,
                 row * COL_COUNT + 2 := pressed_byte sense row 2],
              lastKeyState := l[row * COL_COUNT + 0 := pressed_byte sense row 0,
                 row * COL_COUNT + 1 := pressed_byte sense row 1,
                 row * COL_COUNT + 2 := pressed_byte sense row 2]\<rparr>)"
proof -
  let ?k = "\<lambda>col. row * COL_COUNT + col"
  let ?p = "\<lambda>col. pressed_byte sense row col"
  let ?t = "\<lambda>col. if ?p col \<noteq> l ! ?k col then [(of_nat (?k col) :: u8, ?p col)] else []"
  let ?c1 = "c[?k 0 := ?p 0]" and ?l1 = "l[?k 0 := ?p 0]"
  let ?c2 = "?c1[?k 1 := ?p 1]" and ?l2 = "?l1[?k 1 := ?p 1]"
  let ?s0 = "enqueue_all evs (s\<lparr>currentKeyState := c, lastKeyState := l\<rparr>)"
  have step0: "scan_key sense row 0 ?s0 =
      enqueue_all (evs @ ?t 0) (s\<lparr>currentKeyState := ?c1, lastKeyState := ?l1\<rparr>)"
    using assms by (intro scan_key_acc) simp_all
  have "scan_key sense row 1
        (enqueue_all (evs @ ?t 0) (s\<lparr>currentKeyState := ?c1, lastKeyState := ?l1\<rparr>)) =
      enqueue_all ((evs @ ?t 0) @
          (if ?p 1 \<noteq> ?l1 ! ?k 1 then [(of_nat (?k 1) :: u8, ?p 1)] else []))
        (s\<lparr>currentKeyState := ?c2, lastKeyState := ?l2\<rparr>)"
    using assms by (intro scan_key_acc) simp_all
  moreover have "?l1 ! ?k 1 = l ! ?k 1"
    by simp
  ultimately have step1: "scan_key sense row 1 (scan_key sense row 0 ?s0) =
      enqueue_all (evs @ ?t 0 @ ?t 1) (s\<lparr>currentKeyState := ?c2, lastKeyState := ?l2\<rparr>)"
    by (simp only: step0 append_assoc)
  have "scan_key sense row 2
        (enqueue_all (evs @ ?t 0 @ ?t 1) (s\<lparr>currentKeyState := ?c2, lastKeyState := ?l2\<rparr>)) =
      enqueue_all ((evs @ ?t 0 @ ?t 1) @
          (if ?p 2 \<noteq> ?l2 ! ?k 2 then [(of_nat (?k 2) :: u8, ?p 2)] else []))
        (s\<lparr>currentKeyState := ?c2[?k 2 := ?p 2], lastKeyState := ?l2[?k 2 := ?p 2]\<rparr>)"
    using assms by (intro scan_key_acc) simp_all
  moreover have "?l2 ! ?k 2 = l ! ?k 2"
    by simp
  ultimately have step2:
    "scan_key sense row 2 (scan_key sense row 1 (scan_key sense row 0 ?s0)) =
      enqueue_all (evs @ ?t 0 @ ?t 1 @ ?t 2)
        (s\<lparr>currentKeyState := ?c2[?k 2 := ?p 2], lastKeyState := ?l2[?k 2 := ?p 2]\<rparr>)"
    by (simp only: step1 append_assoc)
  have "concat (map ?t [0..<COL_COUNT]) = ?t 0 @ ?t 1 @ ?t 2"
    by (simp only: cols_list list.map concat.simps append_Nil2)
  with step2 show ?thesis
    by (simp only: scan_cols_unroll)
qed



lemma scan_key_pinLevel_update:
  "scan_key sense row col (pinLevel_update g s) = pinLevel_update g (scan_key sense row col s)"
  by (simp add: scan_key_def queueKeyEvent_def Let_def)

lemma scan_cols_pinLevel_update:
  "scan_cols sense row 0 (pinLevel_update g s) = pinLevel_update g (scan_cols sense row 0 s)"
  by (simp only: scan_cols_unroll scan_key_pinLevel_update)

lemma write_rows_set:
  "write_rows level 0 (s\<lparr>pinLevel := v\<rparr>) =
     s\<lparr>pinLevel := v(2 := level, 4 := level, 5 := level, 10 := level)\<rparr>"
  apply (simp only: write_rows_all)
  apply (rule firmware.equality)
  apply simp_all
  done

lemma digitalWrite_set:
  "digitalWrite pin level (s\<lparr>pinLevel := v\<rparr>) = s\<lparr>pinLevel := v(pin := level)\<rparr>"
  by (simp add: digitalWrite_def)

lemma scan_row_pins:
  "scan_cols sense row 0
     (digitalWrite pin False (write_rows True 0 (s\<lparr>pinLevel := v\<rparr>))) =
   (scan_cols sense row 0 s)
     \<lparr>pinLevel := (v(2 := True, 4 := True, 5 := True, 10 := True))(pin := False)\<rparr>"
  by (simp only: write_rows_set digitalWrite_set scan_cols_pinLevel_update)

lemma scanKeypad_rows_idle:
  "scanKeypad sense s =
     (scan_cols sense 3 0 (scan_cols sense 2 0 (scan_cols sense 1 0 (scan_cols sense 0 0 s))))
       \<lparr>pinLevel := rows_idle (pinLevel s)\<rparr>"
proof -
  let ?X = "scan_cols sense 3 0 (scan_cols sense 2 0 (scan_cols sense 1 0
    (scan_cols sense 0 0 s)))"
  let ?all = "\<lambda>f :: nat \<Rightarrow> bool. f(2 := True, 4 := True, 5 := True, 10 := True)"
  define v0 where "v0 = (?all (pinLevel s))(2 := False)"
  define v1 where "v1 = (?all v0)(4 := False)"
  define v2 where "v2 = (?all v1)(5 := False)"
  define v3 where "v3 = (?all v2)(10 := False)"
  have "s\<lparr>pinLevel := pinLevel s\<rparr> = s"
    by simp
  with scan_row_pins [where s = s and v = "pinLevel s" and row = 0 and pin = 2 and sense = sense]
  have r0: "scan_cols sense 0 0 (digitalWrite 2 False (write_rows True 0 s)) =
      (scan_cols sense 0 0 s)\<lparr>pinLevel := v0\<rparr>"
    unfolding v0_def by (simp only:)
  have r1: "scan_cols sense 1 0 (digitalWrite 4 False (write_rows True 0
      ((scan_cols sense 0 0 s)\<lparr>pinLevel := v0\<rparr>))) =
      (scan_cols sense 1 0 (scan_cols sense 0 0 s))\<lparr>pinLevel := v1\<rparr>"
    unfolding v1_def by (rule scan_row_pins)
  have r2: "scan_cols sense 2 0 (digitalWrite 5 False (write_rows True 0
      ((scan_cols sense 1 0 (scan_cols sense 0 0 s))\<lparr>pinLevel := v1\<rparr>))) =
      (scan_cols sense 2 0 (scan_cols sense 1 0 (scan_cols sense 0 0 s)))\<lparr>pinLevel := v2\<rparr>"
    unfolding v2_def by (rule scan_row_pins)
  have r3: "scan_cols sense 3 0 (digitalWrite 10 False (write_rows True 0
      ((scan_cols sense 2 0 (scan_cols sense 1 0 (scan_cols sense 0 0 s)))
        \<lparr>pinLevel := v2\<rparr>))) = ?X\<lparr>pinLevel := v3\<rparr>"
    unfolding v3_def by (rule scan_row_pins)
  have "scanKeypad sense s = write_rows True 0 (?X\<lparr>pinLevel := v3\<rparr>)"
    by (simp only: scanKeypad_def scan_rows_unroll r0 r1 r2 r3)
  also have "\<dots> = ?X\<lparr>pinLevel := ?all v3\<rparr>"
    by (rule write_rows_set)
  also have "?all v3 = rows_idle (pinLevel s)"
    unfolding v3_def v2_def v1_def v0_def rows_idle_def by (rule ext) simp
  finally show ?thesis .
qed

lemma transitions_held: "transitions sense (sensed sense) = []"
  unfolding transitions_def sensed_def rows_list cols_list by (simp add: COL_COUNT_def)

lemma scan_all_keys:
  assumes "length (lastKeyState s) = NUM_KEYS"
    and "length (currentKeyState s) = NUM_KEYS"
  shows "scan_cols sense 3 0 (scan_cols sense 2 0 (scan_cols sense 1 0 (scan_cols sense 0 0 s))) =
     enqueue_all (transitions sense (lastKeyState s))
       (s\<lparr>currentKeyState := sensed sense, lastKeyState := sensed sense\<rparr>)"
proof -
  define c where "c = currentKeyState s"
  define l where "l = lastKeyState s"
  define U where "U = (\<lambda>row (xs :: u8 list).
    xs[row * COL_COUNT + 0 := pressed_byte sense row 0,
       row * COL_COUNT + 1 := pressed_byte sense row 1,
       row * COL_COUNT + 2 := pressed_byte sense row 2])"
  define T where "T = (\<lambda>row (prev :: u8 list). concat (map (\<lambda>col.
    if pressed_byte sense row col \<noteq> prev ! (row * COL_COUNT + col)
    then [(of_nat (row * COL_COUNT + col) :: u8, pressed_byte sense row col)] else [])
    [0..<COL_COUNT]))"
  have len: "length l = 12" "length c = 12"
    using assms by (simp_all add: l_def c_def NUM_KEYS_def ROW_COUNT_def COL_COUNT_def)
  have lenU [simp]: "length (U row xs) = length xs" for row xs
    by (simp add: U_def)
  have acc: "scan_cols sense row 0
        (enqueue_all evs (s\<lparr>currentKeyState := c', lastKeyState := l'\<rparr>)) =
      enqueue_all (evs @ T row l') (s\<lparr>currentKeyState := U row c', lastKeyState := U row l'\<rparr>)"
    if "row * COL_COUNT + 2 < length l'" "length c' = length l'" "length l' \<le> 256"
    for row evs c' l'
    unfolding U_def T_def using that by (rule scan_cols_acc)
  have "s = enqueue_all [] (s\<lparr>currentKeyState := c, lastKeyState := l\<rparr>)"
    by (simp add: c_def l_def)
  then have "scan_cols sense 0 0 s =
      scan_cols sense 0 0 (enqueue_all [] (s\<lparr>currentKeyState := c, lastKeyState := l\<rparr>))"
    by simp
  also have "\<dots> = enqueue_all ([] @ T 0 l)
      (s\<lparr>currentKeyState := U 0 c, lastKeyState := U 0 l\<rparr>)"
    by (rule acc) (simp_all add: len COL_COUNT_def)
  finally have r0: "scan_cols sense 0 0 s = enqueue_all ([] @ T 0 l)
      (s\<lparr>currentKeyState := U 0 c, lastKeyState := U 0 l\<rparr>)" .
  have r1: "scan_cols sense 1 0 (enqueue_all ([] @ T 0 l)
        (s\<lparr>currentKeyState := U 0 c, lastKeyState := U 0 l\<rparr>)) =
      enqueue_all (([] @ T 0 l) @ T 1 (U 0 l))
        (s\<lparr>currentKeyState := U 1 (U 0 c), lastKeyState := U 1 (U 0 l)\<rparr>)"
    by (rule acc) (simp_all add: len COL_COUNT_def)
  have r2: "scan_cols sense 2 0 (enqueue_all (([] @ T 0 l) @ T 1 (U 0 l))
        (s\<lparr>currentKeyState := U 1 (U 0 c), lastKeyState := U 1 (U 0 l)\<rparr>)) =
      enqueue_all ((([] @ T 0 l) @ T 1 (U 0 l)) @ T 2 (U 1 (U 0 l)))
        (s\<lparr>currentKeyState := U 2 (U 1 (U 0 c)), lastKeyState := U 2 (U 1 (U 0 l))\<rparr>)"
    by (rule acc) (simp_all add: len COL_COUNT_def)
  have r3: "scan_cols sense 3 0 (enqueue_all ((([] @ T 0 l) @ T 1 (U 0 l)) @ T 2 (U 1 (U 0 l)))
        (s\<lparr>currentKeyState := U 2 (U 1 (U 0 c)), lastKeyState := U 2 (U 1 (U 0 l))\<rparr>)) =
      enqueue_all (((([] @ T 0 l) @ T 1 (U 0 l)) @ T 2 (U 1 (U 0 l))) @ T 3 (U 2 (U 1 (U 0 l))))
        (s\<lparr>currentKeyState := U 3 (U 2 (U 1 (U 0 c))),
           lastKeyState := U 3 (U 2 (U 1 (U 0 l)))\<rparr>)"
    by (rule acc) (simp_all add: len COL_COUNT_def)
  have Tcong: "T row p = T row p'"
    if "\<And>col. col < 3 \<Longrightarrow> p ! (row * 3 + col) = p' ! (row * 3 + col)"
    for row p p'
    unfolding T_def COL_COUNT_def
    by (intro arg_cong [where f = concat] map_cong) (simp_all add: that)
  have t1: "T 1 (U 0 l) = T 1 l"
    by (rule Tcong) (simp add: U_def COL_COUNT_def)
  have t2: "T 2 (U 1 (U 0 l)) = T 2 l"
    by (rule Tcong) (simp add: U_def COL_COUNT_def)
  have t3: "T 3 (U 2 (U 1 (U 0 l))) = T 3 l"
    by (rule Tcong) (simp add: U_def COL_COUNT_def)
  have tr: "((([] @ T 0 l) @ T 1 l) @ T 2 l) @ T 3 l = transitions sense l"
    unfolding T_def transitions_def rows_list
    by (simp only: list.map concat.simps append_Nil append_Nil2 append_assoc)
  have upd: "U 3 (U 2 (U 1 (U 0 xs))) = sensed sense" if "length xs = 12" for xs
  proof -
    from that obtain x0 x1 x2 x3 x4 x5 x6 x7 x8 x9 x10 x11
      where "xs = [x0, x1, x2, x3, x4, x5, x6, x7, x8, x9, x10, x11]"
      by (auto simp: eval_nat_numeral length_Suc_conv)
    then show ?thesis
      unfolding U_def sensed_def rows_list cols_list by (simp add: COL_COUNT_def eval_nat_numeral)
  qed
  have "scan_cols sense 3 0 (scan_cols sense 2 0 (scan_cols sense 1 0 (scan_cols sense 0 0 s))) =
      enqueue_all (((([] @ T 0 l) @ T 1 (U 0 l)) @ T 2 (U 1 (U 0 l))) @ T 3 (U 2 (U 1 (U 0 l))))
        (s\<lparr>currentKeyState := U 3 (U 2 (U 1 (U 0 c))),
           lastKeyState := U 3 (U 2 (U 1 (U 0 l)))\<rparr>)"
    by (simp only: r0 r1 r2 r3)
  also have "\<dots> = enqueue_all (transitions sense l)
      (s\<lparr>currentKeyState := sensed sense, lastKeyState := sensed sense\<rparr>)"
    by (simp only: t1 t2 t3 tr upd [OF len(1)] upd [OF len(2)])
  finally show ?thesis
    by (simp only: l_def)
qed

lemma length_sensed: "length (sensed sense) = NUM_KEYS"
  unfolding sensed_def rows_list cols_list
  by (simp add: NUM_KEYS_def ROW_COUNT_def COL_COUNT_def)

lemma rows_idle_idem: "rows_idle (rows_idle f) = rows_idle f"
  by (rule ext) (simp add: rows_idle_def)

lemma scanKeypad_run:
  assumes "length (lastKeyState s) = NUM_KEYS"
    and "length (currentKeyState s) = NUM_KEYS"
  shows "scanKeypad sense s =
           enqueue_all (transitions sense (lastKeyState s))
             (s\<lparr>currentKeyState := sensed sense, lastKeyState := sensed sense,
                pinLevel := rows_idle (pinLevel s)\<rparr>)"
proof -
  have "scanKeypad sense s =
      (enqueue_all (transitions sense (lastKeyState s))
         (s\<lparr>currentKeyState := sensed sense, lastKeyState := sensed sense\<rparr>))
        \<lparr>pinLevel := rows_idle (pinLevel s)\<rparr>"
    by (simp only: scanKeypad_rows_idle scan_all_keys [OF assms])
  then show ?thesis
    by (simp only: enqueue_all_pinLevel_update)
qed

lemma scanKeypad_twice:
  assumes "length (lastKeyState s) = NUM_KEYS"
    and "length (currentKeyState s) = NUM_KEYS"
  shows "scanKeypad sense' (scanKeypad sense s) =
           enqueue_all (transitions sense (lastKeyState s) @ transitions sense' (sensed sense))
             (s\<lparr>currentKeyState := sensed sense', lastKeyState := sensed sense',
                pinLevel := rows_idle (pinLevel s)\<rparr>)"
proof -
  let ?s1 = "scanKeypad sense s"
  let ?evs = "transitions sense (lastKeyState s)"
  let ?mid = "s\<lparr>currentKeyState := sensed sense, lastKeyState := sensed sense,
    pinLevel := rows_idle (pinLevel s)\<rparr>"
  have s1: "?s1 = enqueue_all ?evs ?mid"
    using assms by (rule scanKeypad_run)
  have last1: "lastKeyState ?s1 = sensed sense"
    and cur1: "currentKeyState ?s1 = sensed sense"
    and pins1: "pinLevel ?s1 = rows_idle (pinLevel s)"
    by (simp_all add: s1)
  have "scanKeypad sense' ?s1 =
      enqueue_all (transitions sense' (lastKeyState ?s1))
        (?s1\<lparr>currentKeyState := sensed sense', lastKeyState := sensed sense',
           pinLevel := rows_idle (pinLevel ?s1)\<rparr>)"
    by (rule scanKeypad_run) (simp_all add: last1 cur1 length_sensed)
  also have "\<dots> = enqueue_all (transitions sense' (sensed sense))
      ((enqueue_all ?evs ?mid)\<lparr>currentKeyState := sensed sense', lastKeyState := sensed sense',
           pinLevel := rows_idle (pinLevel s)\<rparr>)"
    by (simp only: last1 pins1 rows_idle_idem) (simp only: s1)
  also have "(enqueue_all ?evs ?mid)\<lparr>currentKeyState := sensed sense',
        lastKeyState := sensed sense', pinLevel := rows_idle (pinLevel s)\<rparr> =
      enqueue_all ?evs (?mid\<lparr>currentKeyState := sensed sense',
        lastKeyState := sensed sense', pinLevel := rows_idle (pinLevel s)\<rparr>)"
    by (simp only: enqueue_all_pinLevel_update enqueue_all_currentKeyState_update
        enqueue_all_lastKeyState_update)
  also have "?mid\<lparr>currentKeyState := sensed sense',
        lastKeyState := sensed sense', pinLevel := rows_idle (pinLevel s)\<rparr> =
      s\<lparr>currentKeyState := sensed sense', lastKeyState := sensed sense',
        pinLevel := rows_idle (pinLevel s)\<rparr>"
    by simp
  finally show ?thesis
    by (simp only: enqueue_all_append)
qed

text \<open>
  Claim C2. One call of \<open>scanKeypad\<close> calls \<open>queueKeyEvent\<close> once for every key whose
  sensed state differs from its stored previous state, rows first and columns within
  a row, and for no other key, and it stores the sensed state of every key. So over two
  scans in a row the events of the second are those of the keys whose reading differs
  from the first scan's, and a scan with unchanged readings emits nothing: a held key
  gives no second event. Whether an emitted event enters the queue is decided by the
  queue: the bytes added are those of the first events that fit.
\<close>

theorem scanKeypad_emits_transitions:
  assumes "length (lastKeyState s) = NUM_KEYS"
    and "length (currentKeyState s) = NUM_KEYS"
  shows "scanKeypad sense s =
           enqueue_all (transitions sense (lastKeyState s))
             (s\<lparr>currentKeyState := sensed sense, lastKeyState := sensed sense,
                pinLevel := rows_idle (pinLevel s)\<rparr>) \<and>
         lastKeyState (scanKeypad sense s) = sensed sense \<and>
         scanKeypad sense' (scanKeypad sense s) =
           enqueue_all (transitions sense (lastKeyState s) @ transitions sense' (sensed sense))
             (s\<lparr>currentKeyState := sensed sense', lastKeyState := sensed sense',
                pinLevel := rows_idle (pinLevel s)\<rparr>) \<and>
         transitions sense (sensed sense) = [] \<and>
         (length (i2cBuffer s) = I2C_BUFFER_SIZE \<longrightarrow>
            queue_contents (scanKeypad sense s) =
              queue_contents s @
              concat (map encode
                (take ((I2C_BUFFER_SIZE - unat (i2cWriteIndex s)) div 2)
                   (transitions sense (lastKeyState s)))))"
proof -
  let ?evs = "transitions sense (lastKeyState s)"
  let ?s' = "s\<lparr>currentKeyState := sensed sense, lastKeyState := sensed sense,
    pinLevel := rows_idle (pinLevel s)\<rparr>"
  have scan: "scanKeypad sense s = enqueue_all ?evs ?s'"
    using assms by (rule scanKeypad_run)
  have last: "lastKeyState (scanKeypad sense s) = sensed sense"
    by (simp add: scan)
  have "queue_contents (enqueue_all ?evs ?s') =
      queue_contents ?s' @
      concat (map encode (take ((I2C_BUFFER_SIZE - unat (i2cWriteIndex ?s')) div 2) ?evs))"
    if "length (i2cBuffer s) = I2C_BUFFER_SIZE"
    using that by (intro queue_contents_enqueue_all) simp
  then have bytes: "queue_contents (scanKeypad sense s) =
      queue_contents s @
      concat (map encode (take ((I2C_BUFFER_SIZE - unat (i2cWriteIndex s)) div 2) ?evs))"
    if "length (i2cBuffer s) = I2C_BUFFER_SIZE"
    using that by (simp add: scan queue_contents_def)
  from scan last scanKeypad_twice [OF assms, of sense' sense] transitions_held bytes
  show ?thesis
    by blast
qed

lemma transitions_key5_down:
  "transitions key5_down [0, 0, 0, 0, 0, 0, 0, 0, 0, 0, 0, 0] = [(5, 1)]"
  unfolding transitions_def rows_list cols_list
  by (simp add: pressed_byte_def key5_down_def COL_COUNT_def)

theorem scanKeypad_emits_transitions_witness:
  "length (lastKeyState initial) = NUM_KEYS \<and>
   length (currentKeyState initial) = NUM_KEYS \<and>
   length (i2cBuffer initial) = I2C_BUFFER_SIZE \<and>
   scanKeypad key5_down initial =
     queueKeyEvent 5 1
       (initial\<lparr>currentKeyState := sensed key5_down, lastKeyState := sensed key5_down,
          pinLevel := rows_idle (pinLevel initial)\<rparr>) \<and>
   queue_contents (scanKeypad key5_down initial) = [5, 0x80] \<and>
   transitions key5_down (lastKeyState (scanKeypad key5_down initial)) = [] \<and>
   scanKeypad key5_down (scanKeypad key5_down initial) = scanKeypad key5_down initial"
proof -
  have h1: "length (lastKeyState initial) = NUM_KEYS"
    by (simp add: initial_def NUM_KEYS_def ROW_COUNT_def COL_COUNT_def)
  have h2: "length (currentKeyState initial) = NUM_KEYS"
    by (simp add: initial_def NUM_KEYS_def ROW_COUNT_def COL_COUNT_def)
  have h3: "length (i2cBuffer initial) = I2C_BUFFER_SIZE"
    by (simp add: initial_def I2C_BUFFER_SIZE_def)
  have evs: "transitions key5_down (lastKeyState initial) = [(5, 1)]"
    by (simp add: initial_def transitions_key5_down)
  have q: "queue_contents initial = []"
    by (simp add: queue_contents_def initial_def)
  have free: "(I2C_BUFFER_SIZE - unat (i2cWriteIndex initial)) div 2 = 8"
    by (simp add: initial_def I2C_BUFFER_SIZE_def)
  note scan = scanKeypad_emits_transitions [OF h1 h2, of key5_down key5_down]
  from scan have a: "scanKeypad key5_down initial =
      queueKeyEvent 5 1
        (initial\<lparr>currentKeyState := sensed key5_down, lastKeyState := sensed key5_down,
           pinLevel := rows_idle (pinLevel initial)\<rparr>)"
    by (simp add: evs)
  from scan h3 have "queue_contents (scanKeypad key5_down initial) =
      queue_contents initial @
      concat (map encode (take ((I2C_BUFFER_SIZE - unat (i2cWriteIndex initial)) div 2)
        (transitions key5_down (lastKeyState initial))))"
    by blast
  then have b: "queue_contents (scanKeypad key5_down initial) = [5, 0x80]"
    by (simp add: evs q free encode_def)
  from scan have c: "transitions key5_down (lastKeyState (scanKeypad key5_down initial)) = []"
    by simp
  from scan have "scanKeypad key5_down (scanKeypad key5_down initial) =
      enqueue_all (transitions key5_down (lastKeyState initial) @
          transitions key5_down (sensed key5_down))
        (initial\<lparr>currentKeyState := sensed key5_down, lastKeyState := sensed key5_down,
           pinLevel := rows_idle (pinLevel initial)\<rparr>)"
    by blast
  with scan have d: "scanKeypad key5_down (scanKeypad key5_down initial) =
      scanKeypad key5_down initial"
    by simp
  from h1 h2 h3 a b c d show ?thesis
    by blast
qed

section \<open>Properties of sleep and of the control loop\<close>

lemma write_rows_prr [simp]: "prr (write_rows level 0 s) = prr s"
  by (simp only: write_rows_all) simp

lemma write_rows_flag [simp]: "systemWakeUp (write_rows level 0 s) = systemWakeUp s"
  by (simp only: write_rows_all) simp

lemma write_rows_lastScanTime [simp]: "lastScanTime (write_rows level 0 s) = lastScanTime s"
  by (simp only: write_rows_all) simp

lemma write_rows_pins:
  "pinLevel (write_rows level 0 s) 2 = level"
  "pinLevel (write_rows level 0 s) 4 = level"
  "pinLevel (write_rows level 0 s) 5 = level"
  "pinLevel (write_rows level 0 s) 10 = level"
  by (simp_all only: write_rows_all) simp_all

lemma ISR_sets_flag [simp]: "systemWakeUp (ISR wake s)"
  by (cases wake) simp_all

lemma ISR_prr [simp]: "prr (ISR wake s) = prr s"
  by (cases wake) simp_all

lemma ISR_lastScanTime [simp]: "lastScanTime (ISR wake s) = lastScanTime s"
  by (cases wake) simp_all

lemma sleep_prepare_prr:
  "prr (sleep_prepare s) = prr s \<union> {Timer0, Timer1, Timer2, SPI, USART0, ADC}"
  by (auto simp: sleep_prepare_def power_disable_def)

lemma sleep_prepare_rows:
  "map (pinLevel (sleep_prepare s)) ROWS = [False, False, False, False]"
  by (simp add: sleep_prepare_def ROWS_def write_rows_pins)

lemma enterSleep_prr: "prr (enterSleep wake s) = prr (sleep_prepare s) - {Timer0, USART0}"
  by (auto simp: enterSleep_def sleep_resume_def power_enable_def)

lemma enterSleep_rows:
  "map (pinLevel (enterSleep wake s)) ROWS = [True, True, True, True]"
  by (simp add: enterSleep_def sleep_resume_def ROWS_def write_rows_pins)

lemma enterSleep_flag: "systemWakeUp (enterSleep wake s)"
  by (simp add: enterSleep_def sleep_resume_def power_enable_def)

lemma enterSleep_lastScanTime [simp]: "lastScanTime (enterSleep wake s) = lastScanTime s"
  by (simp add: enterSleep_def sleep_resume_def sleep_prepare_def power_enable_def
      power_disable_def)

lemma scan_key_sleep_fields [simp]:
  "systemWakeUp (scan_key sense row col s) = systemWakeUp s"
  "lastScanTime (scan_key sense row col s) = lastScanTime s"
  by (simp_all add: scan_key_def queueKeyEvent_def Let_def)

lemma digitalWrite_sleep_fields [simp]:
  "systemWakeUp (digitalWrite pin level s) = systemWakeUp s"
  "lastScanTime (digitalWrite pin level s) = lastScanTime s"
  by (simp_all add: digitalWrite_def)

lemma scanKeypad_sleep_fields [simp]:
  "systemWakeUp (scanKeypad sense s) = systemWakeUp s"
  "lastScanTime (scanKeypad sense s) = lastScanTime s"
  by (simp_all add: scanKeypad_def scan_rows_unroll scan_cols_unroll)

lemma loop_cases:
  "loop wake now later sense s =
     (if systemWakeUp s then
        if SCAN_INTERVAL_MS \<le> now - lastScanTime s
        then ([Scanned], (scanKeypad sense (s\<lparr>systemWakeUp := False\<rparr>))\<lparr>lastScanTime := now\<rparr>)
        else ([], s\<lparr>systemWakeUp := False\<rparr>)
      else
        if SCAN_INTERVAL_MS \<le> now - lastScanTime s
        then ([Slept, Scanned],
              (scanKeypad sense ((enterSleep wake s)\<lparr>systemWakeUp := False\<rparr>))
                \<lparr>lastScanTime := now\<rparr>)
        else ([Slept], (enterSleep wake s)\<lparr>systemWakeUp := False\<rparr>))"
proof (cases "systemWakeUp s")
  case awake: True
  show ?thesis
  proof (cases "SCAN_INTERVAL_MS \<le> now - lastScanTime s")
    case True
    with awake show ?thesis by (simp add: loop_def)
  next
    case False
    with awake show ?thesis by (simp add: loop_def)
  qed
next
  case idle: False
  show ?thesis
  proof (cases "SCAN_INTERVAL_MS \<le> now - lastScanTime s")
    case True
    with idle show ?thesis by (simp add: loop_def)
  next
    case False
    with idle show ?thesis by (simp add: loop_def)
  qed
qed

lemma loop_activity:
  "fst (loop wake now later sense s) =
     (if systemWakeUp s then [] else [Slept]) @
     (if SCAN_INTERVAL_MS \<le> now - lastScanTime s then [Scanned] else [])"
  by (simp add: loop_cases)

lemma loop_flag_cleared: "\<not> systemWakeUp (snd (loop wake now later sense s))"
  by (simp add: loop_cases)

lemma loop_lastScanTime:
  "lastScanTime (snd (loop wake now later sense s)) =
     (if SCAN_INTERVAL_MS \<le> now - lastScanTime s then now else lastScanTime s)"
  by (simp add: loop_cases)

text \<open>
  Claim C5 says that after the sleep routine returns every subsystem that was switched
  off before sleeping is switched on again. The sketch switches six subsystems off
  and only two of them on again: timer 1, enabled at start-up, is off before the sleep
  and still off when \<open>enterSleep\<close> has returned.
\<close>

theorem sleep_leaves_timer1_off:
  "Timer1 \<notin> prr initial \<and> Timer1 \<in> prr (sleep_prepare initial) \<and>
   Timer1 \<in> prr (enterSleep INT0 initial)"
  by (simp add: enterSleep_prr sleep_prepare_prr) (simp add: initial_def)

text \<open>
  Claim C5, as the sketch has it. Before sleeping, \<open>enterSleep\<close> switches off timer 0,
  timer 1, timer 2, SPI, USART0 and the ADC; when it returns, timer 0 and USART0 are
  switched on again and nothing else is, and all four rows are back at the idle (high)
  level. The wake flag is still set when \<open>enterSleep\<close> returns; the control loop
  clears it right after the call.
\<close>

theorem enterSleep_restores:
  "prr (sleep_prepare s) = prr s \<union> {Timer0, Timer1, Timer2, SPI, USART0, ADC} \<and>
   prr (enterSleep wake s) = prr (sleep_prepare s) - {Timer0, USART0} \<and>
   map (pinLevel (enterSleep wake s)) ROWS = [True, True, True, True] \<and>
   systemWakeUp (enterSleep wake s) \<and>
   \<not> systemWakeUp (snd (loop wake now later sense s))"
  by (intro conjI sleep_prepare_prr enterSleep_prr enterSleep_rows enterSleep_flag
      loop_flag_cleared)

text \<open>
  Claim C4 says that a wake-up is followed by exactly one scan pass and that the
  system does not sleep again before the hold window of 20 ms has passed. In the
  sketch the scan is run only when 10 ms have passed on the millisecond clock since
  the last scan, and the test of the hold window guards an empty block. From the state
  after start-up: a pass woken at clock value 5 does not scan; a pass woken at clock
  value 100 scans, and the next pass, at clock value 101 and with no new interrupt,
  sleeps again although only 1 ms of the 20 ms has passed.
\<close>

theorem loop_sleeps_again_at_once:
  "fst (loop INT0 5 5 no_keys initial) = [Slept] \<and>
   fst (loop INT0 100 100 no_keys initial) = [Slept, Scanned] \<and>
   (101 :: u32) - 100 < DEBOUNCE_MS \<and>
   fst (loop INT0 101 101 no_keys (snd (loop INT0 100 100 no_keys initial))) = [Slept]"
proof -
  have t0: "lastScanTime initial = 0" and f0: "\<not> systemWakeUp initial"
    by (simp_all add: initial_def)
  have a: "fst (loop INT0 5 5 no_keys initial) = [Slept]"
    by (simp add: loop_activity t0 f0 SCAN_INTERVAL_MS_def)
  have b: "fst (loop INT0 100 100 no_keys initial) = [Slept, Scanned]"
    by (simp add: loop_activity t0 f0 SCAN_INTERVAL_MS_def)
  have t1: "lastScanTime (snd (loop INT0 100 100 no_keys initial)) = 100"
    by (simp add: loop_lastScanTime t0 SCAN_INTERVAL_MS_def)
  have c: "fst (loop INT0 101 101 no_keys (snd (loop INT0 100 100 no_keys initial))) = [Slept]"
    by (simp add: loop_activity t1 loop_flag_cleared SCAN_INTERVAL_MS_def word_le_nat_alt)
  have d: "(101 :: u32) - 100 < DEBOUNCE_MS"
    by (simp add: DEBOUNCE_MS_def)
  from a b c d show ?thesis
    by blast
qed

text \<open>
  Claim C4, as the sketch has it. A pass of the control loop that starts with no pending
  wake flag enters sleep; when a wake-line interrupt ends the sleep, the pass goes on,
  clears the flag, and runs exactly one scan if at least 10 ms have passed on the
  millisecond clock since the last scan, and no scan otherwise.
\<close>

theorem loop_sleeps_then_scans:
  "\<not> systemWakeUp s \<Longrightarrow>
   fst (loop wake now later sense s) =
     Slept # (if SCAN_INTERVAL_MS \<le> now - lastScanTime s then [Scanned] else []) \<and>
   \<not> systemWakeUp (snd (loop wake now later sense s))"
  by (simp add: loop_activity loop_flag_cleared)

theorem loop_sleeps_then_scans_witness:
  "\<not> systemWakeUp initial \<and>
   fst (loop INT1 100 100 key5_down initial) = [Slept, Scanned] \<and>
   \<not> systemWakeUp (snd (loop INT1 100 100 key5_down initial))"
proof -
  have h: "\<not> systemWakeUp initial"
    by (simp add: initial_def)
  have t0: "lastScanTime initial = 0"
    by (simp add: initial_def)
  show ?thesis
    using h loop_sleeps_then_scans [OF h, of INT1 100 100 key5_down]
    by (simp add: t0 SCAN_INTERVAL_MS_def)
qed

end
